theory Spec2Isabelle
  imports Main "HOL-Library.Sublist" "HOL-Library.AList"
begin

section \<open>Text and characters\<close>

text \<open>
  The program works on Python \<open>str\<close> values, the lines of the decoded output of
  \<open>readelf -a\<close>. A line is modelled as a \<open>string\<close>, a character being a code point
  below 256; the character classes below are the ones Python's \<open>re\<close> and \<open>str\<close> use
  for \<open>str\<close> patterns, restricted to that range.
\<close>

definition code :: "char \<Rightarrow> nat" where
  "code c = of_char c"

definition in_range :: "nat \<Rightarrow> nat \<Rightarrow> char \<Rightarrow> bool" where
  "in_range lo hi c = (lo \<le> code c \<and> code c \<le> hi)"

definition is_space :: "char \<Rightarrow> bool" where
  \<comment> \<open>\<open>\s\<close> and \<open>str.isspace\<close>: tab, LF, VT, FF, CR, FS, GS, RS, US, space, NEL, NBSP.\<close>
  "is_space c = (in_range 9 13 c \<or> in_range 28 32 c \<or> code c = 133 \<or> code c = 160)"

definition is_digit :: "char \<Rightarrow> bool" where
  \<comment> \<open>\<open>\d\<close> and \<open>[0-9]\<close>.\<close>
  "is_digit c = in_range 48 57 c"

definition is_letter :: "char \<Rightarrow> bool" where
  \<comment> \<open>\<open>[a-z]\<close> under \<open>re.IGNORECASE\<close>.\<close>
  "is_letter c = (in_range 97 122 c \<or> in_range 65 90 c)"

definition is_hex :: "char \<Rightarrow> bool" where
  \<comment> \<open>\<open>[0-9a-f]\<close> and \<open>[a-f0-9]\<close> under \<open>re.IGNORECASE\<close>.\<close>
  "is_hex c = (is_digit c \<or> in_range 97 102 c \<or> in_range 65 70 c)"

definition is_word :: "char \<Rightarrow> bool" where
  \<comment> \<open>\<open>\w\<close>: alphanumeric code points and the underscore.\<close>
  "is_word c = (is_digit c \<or> is_letter c \<or> c = CHR ''_''
      \<or> code c = 170 \<or> code c = 178 \<or> code c = 179 \<or> code c = 181
      \<or> code c = 185 \<or> code c = 186 \<or> in_range 188 190 c
      \<or> in_range 192 214 c \<or> in_range 216 246 c \<or> in_range 248 255 c)"

definition is_index_char :: "char \<Rightarrow> bool" where
  \<comment> \<open>\<open>[0-9 ]\<close>\<close>
  "is_index_char c = (is_digit c \<or> c = CHR '' '')"

definition is_section_name_char :: "char \<Rightarrow> bool" where
  \<comment> \<open>\<open>[a-z_\.]\<close> under \<open>re.IGNORECASE\<close>\<close>
  "is_section_name_char c = (is_letter c \<or> c = CHR ''_'' \<or> c = CHR ''.'')"

definition is_type_char :: "char \<Rightarrow> bool" where
  \<comment> \<open>\<open>[a-z_]\<close> under \<open>re.IGNORECASE\<close>\<close>
  "is_type_char c = (is_letter c \<or> c = CHR ''_'')"

definition is_symbol_name_char :: "char \<Rightarrow> bool" where
  \<comment> \<open>\<open>[\w\.]\<close>\<close>
  "is_symbol_name_char c = (is_word c \<or> c = CHR ''.'')"

definition strip :: "string \<Rightarrow> string" where
  \<comment> \<open>\<open>str.strip()\<close>: leading and trailing whitespace removed.\<close>
  "strip s = rev (dropWhile is_space (rev (dropWhile is_space s)))"

section \<open>Errors and integer conversion\<close>

text \<open>
  The exceptions that the modelled operations can raise: \<open>int\<close> on a string that is
  not a number, \<open>match.group\<close> on a group that the pattern does not have, and a
  dictionary read under a missing key. The program catches none of them, so a raise
  anywhere ends the pass: every function below returns \<open>Inl\<close> of the error then.
\<close>

datatype error = ValueError | IndexError | KeyError

definition digit_value :: "char \<Rightarrow> nat option" where
  "digit_value c =
     (if in_range 48 57 c then Some (code c - 48)
      else if in_range 97 122 c then Some (code c - 87)
      else if in_range 65 90 c then Some (code c - 55)
      else None)"

fun int_digits :: "nat \<Rightarrow> int \<Rightarrow> string \<Rightarrow> error + int" where
  "int_digits b acc [] = Inr acc"
| "int_digits b acc (c # cs) =
     (case digit_value c of
        None \<Rightarrow> Inl ValueError
      | Some d \<Rightarrow> if d < b then int_digits b (acc * int b + int d) cs else Inl ValueError)"

definition py_int :: "string \<Rightarrow> nat \<Rightarrow> error + int" where
  \<comment> \<open>\<open>int(s, b)\<close> on a string of digits of base \<open>b\<close>; \<open>ValueError\<close> on the empty string
      and on any other character. (Python's \<open>int\<close> also accepts a sign, surrounding
      whitespace, a base prefix and underscores; such strings raise here, so the model
      raises at least where the program does.) The result is an unbounded integer, and
      the conversion is the mathematical one, for strings of any length.\<close>
  "py_int s b = (if s = [] then Inl ValueError else int_digits b 0 s)"

section \<open>Regular expressions\<close>

text \<open>
  Both patterns of the program are sequences of literal characters and of repeated
  character classes, some of them capturing groups. \<open>re.match\<close> anchors the pattern at
  the start of the line, lets every repetition take as many characters as it can and
  gives characters back one at a time when the rest of the pattern fails; the first
  success is the match.
\<close>

datatype token =
    Lit char
  | ZeroOrMore "char \<Rightarrow> bool"
  | OneOrMore "char \<Rightarrow> bool"
  | Capture "char \<Rightarrow> bool"

fun first_some :: "('a \<Rightarrow> 'b option) \<Rightarrow> 'a list \<Rightarrow> 'b option" where
  "first_some f [] = None"
| "first_some f (x # xs) = (case f x of Some y \<Rightarrow> Some y | None \<Rightarrow> first_some f xs)"

definition run_length :: "(char \<Rightarrow> bool) \<Rightarrow> string \<Rightarrow> nat" where
  "run_length cls s = length (takeWhile cls s)"

definition lengths_from :: "nat \<Rightarrow> nat \<Rightarrow> nat list" where
  \<comment> \<open>the lengths a greedy repetition tries, longest first\<close>
  "lengths_from lo hi = rev [lo ..< Suc hi]"

fun re_match :: "token list \<Rightarrow> string \<Rightarrow> string list option" where
  "re_match [] s = Some []"
| "re_match (Lit c # ts) s =
     (case s of [] \<Rightarrow> None | x # xs \<Rightarrow> if x = c then re_match ts xs else None)"
| "re_match (ZeroOrMore cls # ts) s =
     first_some (\<lambda>k. re_match ts (drop k s)) (lengths_from 0 (run_length cls s))"
| "re_match (OneOrMore cls # ts) s =
     first_some (\<lambda>k. re_match ts (drop k s)) (lengths_from 1 (run_length cls s))"
| "re_match (Capture cls # ts) s =
     first_some (\<lambda>k. map_option ((#) (take k s)) (re_match ts (drop k s)))
       (lengths_from 1 (run_length cls s))"

definition group :: "string list \<Rightarrow> nat \<Rightarrow> error + string" where
  \<comment> \<open>\<open>match.group(i)\<close> for \<open>i \<ge> 1\<close>\<close>
  "group gs i = (if 1 \<le> i \<and> i \<le> length gs then Inr (gs ! (i - 1)) else Inl IndexError)"

section \<open>Dictionaries\<close>

text \<open>
  A Python \<open>dict\<close> keeps its keys in insertion order; storing under a key that is
  present replaces the value in place. That is an association list under
  \<open>AList.update\<close>.
\<close>

type_synonym 'v dict = "(string \<times> 'v) list"

definition setitem :: "'v dict \<Rightarrow> string \<Rightarrow> 'v \<Rightarrow> 'v dict" where
  "setitem d k v = AList.update k v d"

definition has_key :: "'v dict \<Rightarrow> string \<Rightarrow> bool" where
  "has_key d k = (map_of d k \<noteq> None)"

definition getitem :: "'v dict \<Rightarrow> string \<Rightarrow> error + 'v" where
  "getitem d k = (case map_of d k of None \<Rightarrow> Inl KeyError | Some v \<Rightarrow> Inr v)"

definition keys :: "'v dict \<Rightarrow> string list" where
  "keys d = map fst d"

text \<open>A \<open>for\<close> loop over a list: the body runs on each element in turn, and the first
  error ends the loop.\<close>

fun for_loop :: "('s \<Rightarrow> 'a \<Rightarrow> error + 's) \<Rightarrow> 's \<Rightarrow> 'a list \<Rightarrow> error + 's" where
  "for_loop body st [] = Inr st"
| "for_loop body st (x # xs) =
     (case body st x of Inl e \<Rightarrow> Inl e | Inr st' \<Rightarrow> for_loop body st' xs)"

section \<open>Records of the program\<close>

text \<open>
  The program keeps each entity as a dictionary with fixed keys: \<open>address\<close>, \<open>size\<close>
  and \<open>name\<close> for a symbol; those three and \<open>type\<close> and \<open>offset\<close> for a section. The
  change computation reads only \<open>size\<close>, so it takes either. The field \<open>size\<close> is
  written \<open>size'\<close>. A change is a dictionary with the keys \<open>old\<close>, \<open>new\<close>, \<open>diff\<close> and
  \<open>change\<close>, the last one of the strings \<open>resize\<close>, \<open>removed\<close> and \<open>added\<close>.
\<close>

record symbol_record =
  name :: string
  address :: int
  size' :: int

record section_record = symbol_record +
  type :: string
  offset :: int

record change_record =
  old :: int
  new :: int
  diff :: int
  change :: string

section \<open>The section pass\<close>

text \<open>
  \<open>_parse_readelf_sections\<close>. \<open>section_re\<close> is the compiled pattern \<open>e\<close>,
  \<open>new_section\<close> the dictionary built from the groups of a match, \<open>sections_body\<close> one
  turn of the loop on the state \<open>(in_headers, sections)\<close>. Inside the table the blank
  line test comes first and the line is matched against the pattern all the same.
\<close>

definition section_re :: "token list" where
  "section_re =
     [ZeroOrMore is_space, Lit CHR ''['', Capture is_index_char, Lit CHR '']'',
      OneOrMore is_space, Capture is_section_name_char,
      OneOrMore is_space, Capture is_type_char,
      OneOrMore is_space, Capture is_hex,
      OneOrMore is_space, Capture is_hex,
      OneOrMore is_space, Capture is_hex]"

definition new_section :: "string list \<Rightarrow> error + section_record" where
  "new_section gs =
     (case group gs 2 of Inl e \<Rightarrow> Inl e | Inr n \<Rightarrow>
      case group gs 3 of Inl e \<Rightarrow> Inl e | Inr t \<Rightarrow>
      case group gs 4 of Inl e \<Rightarrow> Inl e | Inr g4 \<Rightarrow>
      case py_int g4 16 of Inl e \<Rightarrow> Inl e | Inr a \<Rightarrow>
      case group gs 5 of Inl e \<Rightarrow> Inl e | Inr g5 \<Rightarrow>
      case py_int g5 16 of Inl e \<Rightarrow> Inl e | Inr off \<Rightarrow>
      case group gs 6 of Inl e \<Rightarrow> Inl e | Inr g6 \<Rightarrow>
      case py_int g6 16 of Inl e \<Rightarrow> Inl e | Inr sz \<Rightarrow>
      Inr \<lparr>name = n, address = a, size' = sz, type = t, offset = off\<rparr>)"

definition sections_body :: "bool \<times> section_record dict \<Rightarrow> string \<Rightarrow> error + bool \<times> section_record dict" where
  "sections_body st f =
     (case st of (in_headers, sections) \<Rightarrow>
        if \<not> in_headers then Inr (sublist ''Section Headers:'' f, sections)
        else
          let in_headers' = (if strip f = [] then False else in_headers) in
          case re_match section_re f of
            None \<Rightarrow> Inr (in_headers', sections)
          | Some gs \<Rightarrow>
              (case new_section gs of Inl e \<Rightarrow> Inl e | Inr new_sec \<Rightarrow>
               case group gs 2 of Inl e \<Rightarrow> Inl e | Inr k \<Rightarrow>
               Inr (in_headers', setitem sections k new_sec)))"

definition parse_readelf_sections :: "string list \<Rightarrow> error + section_record dict" where
  "parse_readelf_sections readelf_lines =
     (case for_loop sections_body (False, []) readelf_lines of
        Inl e \<Rightarrow> Inl e | Inr (in_headers, sections) \<Rightarrow> Inr sections)"

section \<open>The symbol pass\<close>

text \<open>
  \<open>_parse_readelf_symbols\<close>, in the same way, on the state \<open>(in_table, symbols)\<close>.
  Nothing sets \<open>in_table\<close> back to \<open>False\<close>.
\<close>

definition symbol_re :: "token list" where
  "symbol_re =
     [OneOrMore is_space, OneOrMore is_digit, Lit CHR '':'',
      OneOrMore is_space, Capture is_hex,
      OneOrMore is_space, Capture is_digit,
      OneOrMore is_space, Capture is_word,
      OneOrMore is_space, Capture is_word,
      OneOrMore is_space, Capture is_word,
      OneOrMore is_space, Capture is_digit,
      OneOrMore is_space, Capture is_symbol_name_char]"

definition new_symbol :: "string list \<Rightarrow> error + symbol_record" where
  "new_symbol gs =
     (case group gs 1 of Inl e \<Rightarrow> Inl e | Inr g1 \<Rightarrow>
      case py_int g1 16 of Inl e \<Rightarrow> Inl e | Inr a \<Rightarrow>
      case group gs 2 of Inl e \<Rightarrow> Inl e | Inr g2 \<Rightarrow>
      case py_int g2 10 of Inl e \<Rightarrow> Inl e | Inr sz \<Rightarrow>
      case group gs 7 of Inl e \<Rightarrow> Inl e | Inr n \<Rightarrow>
      Inr \<lparr>name = n, address = a, size' = sz\<rparr>)"

definition symbols_body :: "bool \<times> symbol_record dict \<Rightarrow> string \<Rightarrow> error + bool \<times> symbol_record dict" where
  "symbols_body st l =
     (case st of (in_table, symbols) \<Rightarrow>
        if \<not> in_table then Inr (prefix ''Symbol table '' l, symbols)
        else
          case re_match symbol_re l of
            None \<Rightarrow> Inr (in_table, symbols)
          | Some gs \<Rightarrow>
              (case new_symbol gs of Inl e \<Rightarrow> Inl e | Inr s \<Rightarrow>
               case group gs 7 of Inl e \<Rightarrow> Inl e | Inr k \<Rightarrow>
               Inr (in_table, setitem symbols k s)))"


section \<open>The change computation\<close>

text \<open>
  \<open>_changes\<close>: a loop over the keys of \<open>old_map\<close>, then a loop over the keys of
  \<open>new_map\<close>, both storing into \<open>changes\<close>.
\<close>

definition changes_old_body ::
  "'a symbol_record_scheme dict \<Rightarrow> 'b symbol_record_scheme dict \<Rightarrow> change_record dict \<Rightarrow> string
     \<Rightarrow> error + change_record dict" where
  "changes_old_body old_map new_map changes s =
     (case getitem old_map s of Inl e \<Rightarrow> Inl e | Inr old_v \<Rightarrow>
        if has_key new_map s then
          (case getitem new_map s of Inl e \<Rightarrow> Inl e | Inr new_v \<Rightarrow>
             if size' old_v \<noteq> size' new_v then
               Inr (setitem changes s
                 \<lparr>old = size' old_v, new = size' new_v,
                  diff = size' new_v - size' old_v, change = ''resize''\<rparr>)
             else Inr changes)
        else
          Inr (setitem changes s
            \<lparr>old = size' old_v, new = 0, diff = - size' old_v, change = ''removed''\<rparr>))"

definition changes_new_body ::
  "'a symbol_record_scheme dict \<Rightarrow> 'b symbol_record_scheme dict \<Rightarrow> change_record dict \<Rightarrow> string
     \<Rightarrow> error + change_record dict" where
  "changes_new_body old_map new_map changes s =
     (if \<not> has_key old_map s then
        (case getitem new_map s of Inl e \<Rightarrow> Inl e | Inr new_v \<Rightarrow>
           Inr (setitem changes s
             \<lparr>old = 0, new = size' new_v, diff = size' new_v, change = ''added''\<rparr>))
      else Inr changes)"

definition changes ::
  "'a symbol_record_scheme dict \<Rightarrow> 'b symbol_record_scheme dict \<Rightarrow> error + change_record dict" where
  "changes old_map new_map =
     (case for_loop (changes_old_body old_map new_map) [] (keys old_map) of
        Inl e \<Rightarrow> Inl e
      | Inr ch \<Rightarrow> for_loop (changes_new_body old_map new_map) ch (keys new_map))"

section \<open>Auxiliary notions\<close>

text \<open>
  The entry that each of the two loops of the change computation leaves under a name.
\<close>

definition old_entry ::
  "'a symbol_record_scheme dict \<Rightarrow> 'b symbol_record_scheme dict \<Rightarrow> string \<Rightarrow> change_record option" where
  "old_entry old_map new_map s =
     (case map_of old_map s of
        None \<Rightarrow> None
      | Some old_v \<Rightarrow>
          (case map_of new_map s of
             None \<Rightarrow> Some \<lparr>old = size' old_v, new = 0, diff = - size' old_v, change = ''removed''\<rparr>
           | Some new_v \<Rightarrow>
               if size' old_v \<noteq> size' new_v
               then Some \<lparr>old = size' old_v, new = size' new_v,
                          diff = size' new_v - size' old_v, change = ''resize''\<rparr>
               else None))"

definition new_entry ::
  "'a symbol_record_scheme dict \<Rightarrow> 'b symbol_record_scheme dict \<Rightarrow> string \<Rightarrow> change_record option" where
  "new_entry old_map new_map s =
     (case map_of new_map s of
        None \<Rightarrow> None
      | Some new_v \<Rightarrow>
          if map_of old_map s = None
          then Some \<lparr>old = 0, new = size' new_v, diff = size' new_v, change = ''added''\<rparr>
          else None)"

text \<open>
  A line matches a pattern when it starts with pieces that fit the tokens one by one;
  the pieces of the capturing tokens are the groups. A repetition is maximal when the
  text after its piece does not go on with a character of its class.
\<close>

fun fits :: "token \<Rightarrow> string \<Rightarrow> bool" where
  "fits (Lit c) p = (p = [c])"
| "fits (ZeroOrMore cls) p = list_all cls p"
| "fits (OneOrMore cls) p = (p \<noteq> [] \<and> list_all cls p)"
| "fits (Capture cls) p = (p \<noteq> [] \<and> list_all cls p)"

fun captured :: "token list \<Rightarrow> string list \<Rightarrow> string list" where
  "captured (Capture cls # ts) (p # ps) = p # captured ts ps"
| "captured (t # ts) (p # ps) = captured ts ps"
| "captured ts ps = []"



text \<open>
  The value of a string of digits in base \<open>b\<close>, by positions; a field is a non-empty
  string of characters of one class.
\<close>

definition digit_of :: "char \<Rightarrow> nat" where
  "digit_of c = (case digit_value c of None \<Rightarrow> 0 | Some d \<Rightarrow> d)"

definition base_value :: "nat \<Rightarrow> string \<Rightarrow> int" where
  "base_value b s = (\<Sum>i<length s. int (digit_of (s ! i)) * int b ^ (length s - Suc i))"

definition field :: "(char \<Rightarrow> bool) \<Rightarrow> string \<Rightarrow> bool" where
  "field cls s = (s \<noteq> [] \<and> list_all cls s)"

text \<open>
  The classes of the capturing tokens of a pattern, in order.
\<close>

fun capture_classes :: "token list \<Rightarrow> (char \<Rightarrow> bool) list" where
  "capture_classes [] = []"
| "capture_classes (Capture cls # ts) = cls # capture_classes ts"
| "capture_classes (t # ts) = capture_classes ts"

text \<open>
  The record that a line yields when it is read as a row, if any; \<open>store\<close> puts a
  record under its name. \<open>section_rows\<close> and \<open>symbol_rows\<close> list the records that the
  loops of the two passes build (\<open>new_section\<close> and \<open>s\<close> in the program), in input
  order, following the same flag as the loops do.
\<close>

definition section_row :: "string \<Rightarrow> section_record option" where
  "section_row f =
     (case re_match section_re f of
        None \<Rightarrow> None
      | Some gs \<Rightarrow> (case new_section gs of Inl e \<Rightarrow> None | Inr r \<Rightarrow> Some r))"

definition symbol_row :: "string \<Rightarrow> symbol_record option" where
  "symbol_row l =
     (case re_match symbol_re l of
        None \<Rightarrow> None
      | Some gs \<Rightarrow> (case new_symbol gs of Inl e \<Rightarrow> None | Inr r \<Rightarrow> Some r))"

definition store :: "'a symbol_record_scheme \<Rightarrow> 'a symbol_record_scheme dict \<Rightarrow> 'a symbol_record_scheme dict" where
  "store r d = setitem d (name r) r"

fun section_rows :: "bool \<Rightarrow> string list \<Rightarrow> section_record list" where
  "section_rows in_headers [] = []"
| "section_rows in_headers (f # fs) =
     (if \<not> in_headers then section_rows (sublist ''Section Headers:'' f) fs
      else (case section_row f of None \<Rightarrow> [] | Some r \<Rightarrow> [r]) @ section_rows (strip f \<noteq> []) fs)"

fun symbol_rows :: "bool \<Rightarrow> string list \<Rightarrow> symbol_record list" where
  "symbol_rows in_table [] = []"
| "symbol_rows in_table (l # ls) =
     (if \<not> in_table then symbol_rows (prefix ''Symbol table '' l) ls
      else (case symbol_row l of None \<Rightarrow> [] | Some r \<Rightarrow> [r]) @ symbol_rows in_table ls)"





section \<open>Dictionaries and the change computation\<close>

lemma map_of_setitem: "map_of (setitem d k v) = (map_of d)(k \<mapsto> v)"
  by (simp add: setitem_def update_conv')

lemma distinct_setitem: "distinct (keys d) \<Longrightarrow> distinct (keys (setitem d k v))"
  by (simp add: setitem_def keys_def distinct_update)

lemma key_in_map_of: "s \<in> set (keys d) \<Longrightarrow> \<exists>v. map_of d s = Some v"
  by (metis keys_def map_of_eq_None_iff not_Some_eq set_map)



lemma for_loop_append:
  "for_loop body st (xs @ ys) =
     (case for_loop body st xs of Inl e \<Rightarrow> Inl e | Inr st' \<Rightarrow> for_loop body st' ys)"
  by (induction xs arbitrary: st) (simp_all split: sum.splits)

lemma changes_old_body_result:
  assumes "s \<in> set (keys old_map)"
  shows "changes_old_body old_map new_map ch s =
           Inr (case old_entry old_map new_map s of None \<Rightarrow> ch | Some r \<Rightarrow> setitem ch s r)"
proof -
  obtain v where "map_of old_map s = Some v" using key_in_map_of [OF assms] by blast
  then show ?thesis
    by (simp add: changes_old_body_def old_entry_def getitem_def has_key_def split: option.splits)
qed

lemma changes_new_body_result:
  assumes "s \<in> set (keys new_map)"
  shows "changes_new_body old_map new_map ch s =
           Inr (case new_entry old_map new_map s of None \<Rightarrow> ch | Some r \<Rightarrow> setitem ch s r)"
proof -
  obtain v where "map_of new_map s = Some v" using key_in_map_of [OF assms] by blast
  then show ?thesis
    by (simp add: changes_new_body_def new_entry_def getitem_def has_key_def split: option.splits)
qed

lemma old_loop:
  assumes "set ks \<subseteq> set (keys old_map)"
  shows "\<exists>ch'. for_loop (changes_old_body old_map new_map) ch ks = Inr ch'
           \<and> (distinct (keys ch) \<longrightarrow> distinct (keys ch'))
           \<and> (\<forall>s. map_of ch' s =
                 (if s \<in> set ks \<and> old_entry old_map new_map s \<noteq> None
                  then old_entry old_map new_map s else map_of ch s))"
  using assms
proof (induction ks arbitrary: ch)
  case Nil
  then show ?case by simp
next
  case (Cons k ks)
  let ?ch1 = "case old_entry old_map new_map k of None \<Rightarrow> ch | Some r \<Rightarrow> setitem ch k r"
  have step: "changes_old_body old_map new_map ch k = Inr ?ch1"
    using Cons.prems by (simp add: changes_old_body_result)
  have sub: "set ks \<subseteq> set (keys old_map)" using Cons.prems by simp
  from Cons.IH [OF sub, of ?ch1] obtain ch' where
    run: "for_loop (changes_old_body old_map new_map) ?ch1 ks = Inr ch'"
    and dist: "distinct (keys ?ch1) \<longrightarrow> distinct (keys ch')"
    and look: "\<forall>s. map_of ch' s =
                 (if s \<in> set ks \<and> old_entry old_map new_map s \<noteq> None
                  then old_entry old_map new_map s else map_of ?ch1 s)"
    by blast
  have d1: "distinct (keys ch) \<longrightarrow> distinct (keys ?ch1)"
    by (simp add: distinct_setitem split: option.splits)
  have "for_loop (changes_old_body old_map new_map) ch (k # ks) = Inr ch'"
    using step run by simp
  moreover have "distinct (keys ch) \<longrightarrow> distinct (keys ch')" using d1 dist by blast
  moreover have "\<forall>s. map_of ch' s =
                 (if s \<in> set (k # ks) \<and> old_entry old_map new_map s \<noteq> None
                  then old_entry old_map new_map s else map_of ch s)"
    using look by (auto simp: map_of_setitem split: option.splits)
  ultimately show ?case by blast
qed

lemma new_loop:
  assumes "set ks \<subseteq> set (keys new_map)"
  shows "\<exists>ch'. for_loop (changes_new_body old_map new_map) ch ks = Inr ch'
           \<and> (distinct (keys ch) \<longrightarrow> distinct (keys ch'))
           \<and> (\<forall>s. map_of ch' s =
                 (if s \<in> set ks \<and> new_entry old_map new_map s \<noteq> None
                  then new_entry old_map new_map s else map_of ch s))"
  using assms
proof (induction ks arbitrary: ch)
  case Nil
  then show ?case by simp
next
  case (Cons k ks)
  let ?ch1 = "case new_entry old_map new_map k of None \<Rightarrow> ch | Some r \<Rightarrow> setitem ch k r"
  have step: "changes_new_body old_map new_map ch k = Inr ?ch1"
    using Cons.prems by (simp add: changes_new_body_result)
  have sub: "set ks \<subseteq> set (keys new_map)" using Cons.prems by simp
  from Cons.IH [OF sub, of ?ch1] obtain ch' where
    run: "for_loop (changes_new_body old_map new_map) ?ch1 ks = Inr ch'"
    and dist: "distinct (keys ?ch1) \<longrightarrow> distinct (keys ch')"
    and look: "\<forall>s. map_of ch' s =
                 (if s \<in> set ks \<and> new_entry old_map new_map s \<noteq> None
                  then new_entry old_map new_map s else map_of ?ch1 s)"
    by blast
  have d1: "distinct (keys ch) \<longrightarrow> distinct (keys ?ch1)"
    by (simp add: distinct_setitem split: option.splits)
  have "for_loop (changes_new_body old_map new_map) ch (k # ks) = Inr ch'"
    using step run by simp
  moreover have "distinct (keys ch) \<longrightarrow> distinct (keys ch')" using d1 dist by blast
  moreover have "\<forall>s. map_of ch' s =
                 (if s \<in> set (k # ks) \<and> new_entry old_map new_map s \<noteq> None
                  then new_entry old_map new_map s else map_of ch s)"
    using look by (auto simp: map_of_setitem split: option.splits)
  ultimately show ?case by blast
qed

lemma changes_lookup:
  "\<exists>ch. changes old_map new_map = Inr ch \<and> distinct (keys ch)
     \<and> (\<forall>s. map_of ch s =
           (case old_entry old_map new_map s of
              Some r \<Rightarrow> Some r | None \<Rightarrow> new_entry old_map new_map s))"
proof -
  from old_loop [of "keys old_map" old_map new_map "[]"] obtain ch1 where
    r1: "for_loop (changes_old_body old_map new_map) [] (keys old_map) = Inr ch1"
    and d1: "distinct (keys ch1)"
    and l1: "\<forall>s. map_of ch1 s =
               (if s \<in> set (keys old_map) \<and> old_entry old_map new_map s \<noteq> None
                then old_entry old_map new_map s else None)"
    by (auto simp: keys_def)
  from new_loop [of "keys new_map" new_map old_map ch1] obtain ch2 where
    r2: "for_loop (changes_new_body old_map new_map) ch1 (keys new_map) = Inr ch2"
    and d2: "distinct (keys ch2)"
    and l2: "\<forall>s. map_of ch2 s =
               (if s \<in> set (keys new_map) \<and> new_entry old_map new_map s \<noteq> None
                then new_entry old_map new_map s else map_of ch1 s)"
    using d1 by auto
  have run: "changes old_map new_map = Inr ch2"
    using r1 r2 by (simp add: changes_def)
  have inold: "\<And>s. old_entry old_map new_map s \<noteq> None \<Longrightarrow> s \<in> set (keys old_map)"
    by (auto simp: old_entry_def keys_def split: option.splits dest: map_of_SomeD intro: rev_image_eqI)
  have innew: "\<And>s. new_entry old_map new_map s \<noteq> None \<Longrightarrow> s \<in> set (keys new_map)"
    by (auto simp: new_entry_def keys_def split: option.splits if_splits dest: map_of_SomeD intro: rev_image_eqI)
  have excl: "\<And>s. new_entry old_map new_map s \<noteq> None \<Longrightarrow> old_entry old_map new_map s = None"
    by (auto simp: new_entry_def old_entry_def split: option.splits if_splits)
  have "\<forall>s. map_of ch2 s =
           (case old_entry old_map new_map s of
              Some r \<Rightarrow> Some r | None \<Rightarrow> new_entry old_map new_map s)"
  proof
    fix s
    show "map_of ch2 s =
           (case old_entry old_map new_map s of
              Some r \<Rightarrow> Some r | None \<Rightarrow> new_entry old_map new_map s)"
    proof (cases "new_entry old_map new_map s")
      case None
      then show ?thesis using l1 l2 inold [of s] by (auto split: option.splits)
    next
      case (Some r)
      then show ?thesis using l2 innew [of s] excl [of s] by (auto split: option.splits)
    qed
  qed
  with run d2 show ?thesis by blast
qed

text \<open>
  Claim C1. For any two dictionaries the change computation returns, without raising, a
  dictionary with one entry per key that holds exactly: under a name of both whose sizes
  differ, the record \<open>resize\<close> with the old size, the new size and \<open>diff\<close> the new size
  minus the old one, whatever its sign; under a name of the old dictionary only, the
  record \<open>removed\<close> with new size 0 and \<open>diff\<close> minus the old size; under a name of the
  new dictionary only, the record \<open>added\<close> with old size 0 and \<open>diff\<close> the new size; and
  nothing under a name of both with equal sizes, or of neither.
\<close>

theorem changes_exact:
  "\<exists>ch. changes old_map new_map = Inr ch \<and> distinct (keys ch)
     \<and> (\<forall>s. map_of ch s =
           (case (map_of old_map s, map_of new_map s) of
              (Some old_v, Some new_v) \<Rightarrow>
                 if size' old_v \<noteq> size' new_v
                 then Some \<lparr>old = size' old_v, new = size' new_v,
                            diff = size' new_v - size' old_v, change = ''resize''\<rparr>
                 else None
            | (Some old_v, None) \<Rightarrow>
                 Some \<lparr>old = size' old_v, new = 0, diff = - size' old_v, change = ''removed''\<rparr>
            | (None, Some new_v) \<Rightarrow>
                 Some \<lparr>old = 0, new = size' new_v, diff = size' new_v, change = ''added''\<rparr>
            | (None, None) \<Rightarrow> None))"
proof -
  from changes_lookup [of old_map new_map] obtain ch where
    "changes old_map new_map = Inr ch" "distinct (keys ch)"
    and l: "\<forall>s. map_of ch s =
           (case old_entry old_map new_map s of
              Some r \<Rightarrow> Some r | None \<Rightarrow> new_entry old_map new_map s)"
    by blast
  moreover have "\<forall>s. map_of ch s =
           (case (map_of old_map s, map_of new_map s) of
              (Some old_v, Some new_v) \<Rightarrow>
                 if size' old_v \<noteq> size' new_v
                 then Some \<lparr>old = size' old_v, new = size' new_v,
                            diff = size' new_v - size' old_v, change = ''resize''\<rparr>
                 else None
            | (Some old_v, None) \<Rightarrow>
                 Some \<lparr>old = size' old_v, new = 0, diff = - size' old_v, change = ''removed''\<rparr>
            | (None, Some new_v) \<Rightarrow>
                 Some \<lparr>old = 0, new = size' new_v, diff = size' new_v, change = ''added''\<rparr>
            | (None, None) \<Rightarrow> None)"
    using l by (simp add: old_entry_def new_entry_def split: option.splits)
  ultimately show ?thesis by blast
qed

theorem changes_exact_witness:
  "\<exists>ch. changes
          [(''foo'', \<lparr>name = ''foo'', address = 0, size' = 10\<rparr>),
           (''bar'', \<lparr>name = ''bar'', address = 4, size' = 4\<rparr>),
           (''same'', \<lparr>name = ''same'', address = 8, size' = 3\<rparr>)]
          [(''foo'', \<lparr>name = ''foo'', address = 0, size' = 12\<rparr>),
           (''same'', \<lparr>name = ''same'', address = 9, size' = 3\<rparr>),
           (''baz'', \<lparr>name = ''baz'', address = 16, size' = 8\<rparr>)] = Inr ch
      \<and> map_of ch ''foo'' = Some \<lparr>old = 10, new = 12, diff = 2, change = ''resize''\<rparr>
      \<and> map_of ch ''bar'' = Some \<lparr>old = 4, new = 0, diff = - 4, change = ''removed''\<rparr>
      \<and> map_of ch ''baz'' = Some \<lparr>old = 0, new = 8, diff = 8, change = ''added''\<rparr>
      \<and> map_of ch ''same'' = None \<and> map_of ch ''other'' = None"
proof -
  let ?A = "[(''foo'', \<lparr>name = ''foo'', address = 0, size' = 10\<rparr>),
           (''bar'', \<lparr>name = ''bar'', address = 4, size' = 4\<rparr>),
           (''same'', \<lparr>name = ''same'', address = 8, size' = 3\<rparr>)]"
  let ?B = "[(''foo'', \<lparr>name = ''foo'', address = 0, size' = 12\<rparr>),
           (''same'', \<lparr>name = ''same'', address = 9, size' = 3\<rparr>),
           (''baz'', \<lparr>name = ''baz'', address = 16, size' = 8\<rparr>)]"
  from changes_exact [of ?A ?B] obtain ch where
    r: "changes ?A ?B = Inr ch"
    and l: "\<And>s. map_of ch s =
           (case (map_of ?A s, map_of ?B s) of
              (Some old_v, Some new_v) \<Rightarrow>
                 if size' old_v \<noteq> size' new_v
                 then Some \<lparr>old = size' old_v, new = size' new_v,
                            diff = size' new_v - size' old_v, change = ''resize''\<rparr>
                 else None
            | (Some old_v, None) \<Rightarrow>
                 Some \<lparr>old = size' old_v, new = 0, diff = - size' old_v, change = ''removed''\<rparr>
            | (None, Some new_v) \<Rightarrow>
                 Some \<lparr>old = 0, new = size' new_v, diff = size' new_v, change = ''added''\<rparr>
            | (None, None) \<Rightarrow> None)"
    by blast
  have "map_of ch ''foo'' = Some \<lparr>old = 10, new = 12, diff = 2, change = ''resize''\<rparr>"
    by (simp add: l)
  moreover have "map_of ch ''bar'' = Some \<lparr>old = 4, new = 0, diff = - 4, change = ''removed''\<rparr>"
    by (simp add: l)
  moreover have "map_of ch ''baz'' = Some \<lparr>old = 0, new = 8, diff = 8, change = ''added''\<rparr>"
    by (simp add: l)
  moreover have "map_of ch ''same'' = None" by (simp add: l)
  moreover have "map_of ch ''other'' = None" by (simp add: l)
  ultimately show ?thesis using r by blast
qed

text \<open>
  Claim C3. A name that only the dictionary \<open>a\<close> holds is reported by
  \<open>changes a b\<close> as \<open>removed\<close> with \<open>diff\<close> minus its size, and by \<open>changes b a\<close> as
  \<open>added\<close> with \<open>diff\<close> its size.
\<close>

theorem changes_one_sided:
  assumes "map_of a s = Some v" and "map_of b s = None"
  shows "\<exists>ch_ab ch_ba.
           changes a b = Inr ch_ab
         \<and> map_of ch_ab s = Some \<lparr>old = size' v, new = 0, diff = - size' v, change = ''removed''\<rparr>
         \<and> changes b a = Inr ch_ba
         \<and> map_of ch_ba s = Some \<lparr>old = 0, new = size' v, diff = size' v, change = ''added''\<rparr>"
proof -
  from changes_lookup [of a b] obtain ch_ab where
    "changes a b = Inr ch_ab"
    "\<forall>s. map_of ch_ab s =
           (case old_entry a b s of Some r \<Rightarrow> Some r | None \<Rightarrow> new_entry a b s)"
    by blast
  moreover from changes_lookup [of b a] obtain ch_ba where
    "changes b a = Inr ch_ba"
    "\<forall>s. map_of ch_ba s =
           (case old_entry b a s of Some r \<Rightarrow> Some r | None \<Rightarrow> new_entry b a s)"
    by blast
  ultimately show ?thesis using assms by (simp add: old_entry_def new_entry_def)
qed

theorem changes_one_sided_witness:
  "map_of [(''bar'', \<lparr>name = ''bar'', address = 4, size' = 4\<rparr>)] ''bar''
      = Some \<lparr>name = ''bar'', address = 4, size' = 4\<rparr>
   \<and> map_of [(''baz'', \<lparr>name = ''baz'', address = 16, size' = 8\<rparr>)] ''bar'' = None
   \<and> (\<exists>ch_ab ch_ba.
         changes [(''bar'', \<lparr>name = ''bar'', address = 4, size' = 4\<rparr>)]
                 [(''baz'', \<lparr>name = ''baz'', address = 16, size' = 8\<rparr>)] = Inr ch_ab
       \<and> map_of ch_ab ''bar'' = Some \<lparr>old = 4, new = 0, diff = - 4, change = ''removed''\<rparr>
       \<and> changes [(''baz'', \<lparr>name = ''baz'', address = 16, size' = 8\<rparr>)]
                 [(''bar'', \<lparr>name = ''bar'', address = 4, size' = 4\<rparr>)] = Inr ch_ba
       \<and> map_of ch_ba ''bar'' = Some \<lparr>old = 0, new = 4, diff = 4, change = ''added''\<rparr>)"
  using changes_one_sided [of "[(''bar'', \<lparr>name = ''bar'', address = 4, size' = 4\<rparr>)]" "''bar''"
      "\<lparr>name = ''bar'', address = 4, size' = 4\<rparr>"
      "[(''baz'', \<lparr>name = ''baz'', address = 16, size' = 8\<rparr>)]"]
  by simp

section \<open>The matcher\<close>

lemma first_some_SomeD: "first_some f xs = Some y \<Longrightarrow> \<exists>x\<in>set xs. f x = Some y"
  by (induction xs) (auto split: option.splits)

lemma first_some_ex: "x \<in> set xs \<Longrightarrow> f x \<noteq> None \<Longrightarrow> first_some f xs \<noteq> None"
  by (induction xs) (auto split: option.splits)

lemma lengths_from_set: "set (lengths_from lo hi) = {lo..hi}"
  by (auto simp: lengths_from_def)


lemma take_run: "k \<le> run_length cls s \<Longrightarrow> list_all cls (take k s)"
proof -
  assume k: "k \<le> run_length cls s"
  have "take k s = take k (takeWhile cls s @ dropWhile cls s)" by simp
  also have "\<dots> = take k (takeWhile cls s)" using k by (simp add: run_length_def del: takeWhile_dropWhile_id)
  finally have "set (take k s) \<subseteq> set (takeWhile cls s)" by (metis set_take_subset)
  then show ?thesis by (auto simp: list_all_iff dest: set_takeWhileD)
qed

lemma run_length_le: "run_length cls s \<le> length s"
  by (simp add: run_length_def length_takeWhile_le)

lemma run_length_append: "list_all cls p \<Longrightarrow> run_length cls (p @ r) = length p + run_length cls r"
  by (simp add: run_length_def list_all_iff takeWhile_append2)


lemma rep_sound:
  assumes "k \<in> set (lengths_from lo (run_length cls s))"
  shows "s = take k s @ drop k s \<and> list_all cls (take k s) \<and> (1 \<le> lo \<longrightarrow> take k s \<noteq> [])"
proof -
  from assms have k: "lo \<le> k" "k \<le> run_length cls s" by (auto simp: lengths_from_set)
  have "1 \<le> lo \<longrightarrow> take k s \<noteq> []"
    using k run_length_le [of cls s] by auto
  with k show ?thesis by (simp add: take_run)
qed

lemma re_match_sound:
  "re_match ts s = Some gs \<Longrightarrow>
     \<exists>ps rest. s = concat ps @ rest \<and> list_all2 fits ts ps \<and> gs = captured ts ps"
proof (induction ts arbitrary: s gs)
  case Nil
  then show ?case by simp
next
  case (Cons t ts)
  show ?case
  proof (cases t)
    case (Lit c)
    with Cons.prems obtain xs where s: "s = c # xs" and m: "re_match ts xs = Some gs"
      by (auto split: list.splits if_splits)
    from Cons.IH [OF m] obtain ps rest where
      "xs = concat ps @ rest" "list_all2 fits ts ps" "gs = captured ts ps" by blast
    then have "s = concat ([c] # ps) @ rest \<and> list_all2 fits (t # ts) ([c] # ps)
                 \<and> gs = captured (t # ts) ([c] # ps)"
      using s Lit by simp
    then show ?thesis by blast
  next
    case (ZeroOrMore cls)
    with Cons.prems obtain k where k: "k \<in> set (lengths_from 0 (run_length cls s))"
      and m: "re_match ts (drop k s) = Some gs"
      by (auto dest!: first_some_SomeD)
    from Cons.IH [OF m] obtain ps rest where
      "drop k s = concat ps @ rest" "list_all2 fits ts ps" "gs = captured ts ps" by blast
    then have "s = concat (take k s # ps) @ rest \<and> list_all2 fits (t # ts) (take k s # ps)
                 \<and> gs = captured (t # ts) (take k s # ps)"
      using rep_sound [OF k] ZeroOrMore by (simp del: append_take_drop_id)
    then show ?thesis by blast
  next
    case (OneOrMore cls)
    with Cons.prems obtain k where k: "k \<in> set (lengths_from 1 (run_length cls s))"
      and m: "re_match ts (drop k s) = Some gs"
      by (auto dest!: first_some_SomeD)
    from Cons.IH [OF m] obtain ps rest where
      "drop k s = concat ps @ rest" "list_all2 fits ts ps" "gs = captured ts ps" by blast
    then have "s = concat (take k s # ps) @ rest \<and> list_all2 fits (t # ts) (take k s # ps)
                 \<and> gs = captured (t # ts) (take k s # ps)"
      using rep_sound [OF k] OneOrMore by (simp del: append_take_drop_id)
    then show ?thesis by blast
  next
    case (Capture cls)
    with Cons.prems obtain k gs' where k: "k \<in> set (lengths_from 1 (run_length cls s))"
      and m: "re_match ts (drop k s) = Some gs'" and gs: "gs = take k s # gs'"
      by (auto dest!: first_some_SomeD)
    from Cons.IH [OF m] obtain ps rest where
      "drop k s = concat ps @ rest" "list_all2 fits ts ps" "gs' = captured ts ps" by blast
    then have "s = concat (take k s # ps) @ rest \<and> list_all2 fits (t # ts) (take k s # ps)
                 \<and> gs = captured (t # ts) (take k s # ps)"
      using rep_sound [OF k] Capture gs by (simp del: append_take_drop_id)
    then show ?thesis by blast
  qed
qed

lemma rep_complete:
  assumes "list_all cls p" "lo \<le> length p"
  shows "length p \<in> set (lengths_from lo (run_length cls (p @ r)))"
  using assms by (simp add: lengths_from_set run_length_append)

lemma rep_first_some:
  assumes "list_all cls p" "lo \<le> length p" "f (length p) \<noteq> None"
  shows "first_some f (lengths_from lo (run_length cls (p @ r))) \<noteq> None"
  using rep_complete [OF assms(1,2)] assms(3) by (rule first_some_ex)

lemma re_match_complete:
  "list_all2 fits ts ps \<Longrightarrow> re_match ts (concat ps @ rest) \<noteq> None"
proof (induction ts arbitrary: ps)
  case Nil
  then show ?case by simp
next
  case (Cons t ts)
  from Cons.prems obtain p ps' where ps: "ps = p # ps'" and f: "fits t p"
    and r: "list_all2 fits ts ps'"
    by (auto simp: list_all2_Cons1)
  let ?s = "concat ps' @ rest"
  have ih: "re_match ts ?s \<noteq> None" using Cons.IH [OF r] .
  have s: "concat ps @ rest = p @ ?s" using ps by simp
  show ?case
  proof (cases t)
    case (Lit c)
    then show ?thesis using ps f ih by simp
  next
    case (ZeroOrMore cls)
    have "first_some (\<lambda>k. re_match ts (drop k (p @ ?s)))
            (lengths_from 0 (run_length cls (p @ ?s))) \<noteq> None"
      using f ih ZeroOrMore by (intro rep_first_some) simp_all
    then show ?thesis unfolding s ZeroOrMore by simp
  next
    case (OneOrMore cls)
    have "first_some (\<lambda>k. re_match ts (drop k (p @ ?s)))
            (lengths_from 1 (run_length cls (p @ ?s))) \<noteq> None"
      using f ih OneOrMore by (intro rep_first_some) (simp_all add: Suc_le_eq)
    then show ?thesis unfolding s OneOrMore by simp
  next
    case (Capture cls)
    have "first_some (\<lambda>k. map_option ((#) (take k (p @ ?s))) (re_match ts (drop k (p @ ?s))))
            (lengths_from 1 (run_length cls (p @ ?s))) \<noteq> None"
      using f ih Capture by (intro rep_first_some) (simp_all add: Suc_le_eq)
    then show ?thesis unfolding s Capture by simp
  qed
qed


lemma captured_classes:
  "list_all2 fits ts ps \<Longrightarrow> list_all2 field (capture_classes ts) (captured ts ps)"
proof (induction ts arbitrary: ps)
  case Nil
  then show ?case by simp
next
  case (Cons t ts)
  then show ?case by (cases t) (auto simp: list_all2_Cons1 field_def)
qed

lemma re_match_groups:
  "re_match ts s = Some gs \<Longrightarrow> list_all2 field (capture_classes ts) gs"
  using re_match_sound [of ts s gs] captured_classes by blast

section \<open>Integer conversion\<close>

lemma base_value_Nil: "base_value b [] = 0"
  by (simp add: base_value_def)

lemma base_value_Cons:
  "base_value b (c # cs) = int (digit_of c) * int b ^ length cs + base_value b cs"
  by (simp add: base_value_def sum.lessThan_Suc_shift del: sum.lessThan_Suc)

lemma int_digits_value:
  "\<forall>c\<in>set s. \<exists>d. digit_value c = Some d \<and> d < b \<Longrightarrow>
     int_digits b acc s = Inr (acc * int b ^ length s + base_value b s)"
proof (induction s arbitrary: acc)
  case Nil
  then show ?case by (simp add: base_value_Nil)
next
  case (Cons c cs)
  from Cons.prems obtain d where d: "digit_value c = Some d" "d < b" by auto
  have "int_digits b acc (c # cs) = int_digits b (acc * int b + int d) cs"
    using d by simp
  also have "\<dots> = Inr ((acc * int b + int d) * int b ^ length cs + base_value b cs)"
    using Cons.prems by (intro Cons.IH) simp
  also have "(acc * int b + int d) * int b ^ length cs + base_value b cs
               = acc * int b ^ length (c # cs) + base_value b (c # cs)"
    using d by (simp add: base_value_Cons digit_of_def algebra_simps)
  finally show ?case .
qed

lemma hex_digit_value: "is_hex c \<Longrightarrow> \<exists>d. digit_value c = Some d \<and> d < 16"
  by (auto simp: is_hex_def is_digit_def digit_value_def in_range_def)

lemma dec_digit_value: "is_digit c \<Longrightarrow> \<exists>d. digit_value c = Some d \<and> d < 10"
  by (auto simp: is_digit_def digit_value_def in_range_def)

lemma py_int_hex: "field is_hex s \<Longrightarrow> py_int s 16 = Inr (base_value 16 s)"
  using int_digits_value [of s 16 0]
  by (simp add: py_int_def field_def list_all_iff hex_digit_value)

lemma py_int_dec: "field is_digit s \<Longrightarrow> py_int s 10 = Inr (base_value 10 s)"
  using int_digits_value [of s 10 0]
  by (simp add: py_int_def field_def list_all_iff dec_digit_value)

section \<open>Rows\<close>

lemma section_groups:
  assumes "re_match section_re f = Some gs"
  shows "\<exists>idx nm ty a off sz. gs = [idx, nm, ty, a, off, sz]
           \<and> field is_index_char idx \<and> field is_section_name_char nm \<and> field is_type_char ty
           \<and> field is_hex a \<and> field is_hex off \<and> field is_hex sz"
  using re_match_groups [OF assms] by (simp add: section_re_def list_all2_Cons1) blast

lemma symbol_groups:
  assumes "re_match symbol_re l = Some gs"
  shows "\<exists>a sz t b v ndx nm. gs = [a, sz, t, b, v, ndx, nm]
           \<and> field is_hex a \<and> field is_digit sz \<and> field is_word t \<and> field is_word b
           \<and> field is_word v \<and> field is_digit ndx \<and> field is_symbol_name_char nm"
  using re_match_groups [OF assms] by (simp add: symbol_re_def list_all2_Cons1) blast

lemma new_section_value:
  assumes "field is_hex a" "field is_hex off" "field is_hex sz"
  shows "new_section [idx, nm, ty, a, off, sz] =
           Inr \<lparr>name = nm, address = base_value 16 a, size' = base_value 16 sz,
                type = ty, offset = base_value 16 off\<rparr>"
  using assms by (simp add: new_section_def group_def py_int_hex)

lemma new_symbol_value:
  assumes "field is_hex a" "field is_digit sz"
  shows "new_symbol [a, sz, t, b, v, ndx, nm] =
           Inr \<lparr>name = nm, address = base_value 16 a, size' = base_value 10 sz\<rparr>"
  using assms by (simp add: new_symbol_def group_def py_int_hex py_int_dec)

lemma section_match_record:
  assumes "re_match section_re f = Some gs"
  shows "\<exists>r. new_section gs = Inr r \<and> group gs 2 = Inr (name r)"
proof -
  from section_groups [OF assms] obtain idx nm ty a off sz where
    "gs = [idx, nm, ty, a, off, sz]" "field is_hex a" "field is_hex off" "field is_hex sz"
    by blast
  then show ?thesis by (simp add: new_section_value) (simp add: group_def)
qed

lemma symbol_match_record:
  assumes "re_match symbol_re l = Some gs"
  shows "\<exists>r. new_symbol gs = Inr r \<and> group gs 7 = Inr (name r)"
proof -
  from symbol_groups [OF assms] obtain a sz t b v ndx nm where
    "gs = [a, sz, t, b, v, ndx, nm]" "field is_hex a" "field is_digit sz"
    by blast
  then show ?thesis by (simp add: new_symbol_value) (simp add: group_def)
qed

lemma sections_body_out: "sections_body (False, secs) f = Inr (sublist ''Section Headers:'' f, secs)"
  by (simp add: sections_body_def)

lemma sections_body_in:
  "sections_body (True, secs) f =
     Inr (strip f \<noteq> [], case section_row f of None \<Rightarrow> secs | Some r \<Rightarrow> setitem secs (name r) r)"
proof (cases "re_match section_re f")
  case None
  then show ?thesis by (simp add: sections_body_def section_row_def)
next
  case (Some gs)
  from section_match_record [OF Some] obtain r where
    "new_section gs = Inr r" "group gs 2 = Inr (name r)" by blast
  with Some show ?thesis by (simp add: sections_body_def section_row_def)
qed

lemma symbols_body_out: "symbols_body (False, syms) l = Inr (prefix ''Symbol table '' l, syms)"
  by (simp add: symbols_body_def)

lemma symbols_body_in:
  "symbols_body (True, syms) l =
     Inr (True, case symbol_row l of None \<Rightarrow> syms | Some r \<Rightarrow> setitem syms (name r) r)"
proof (cases "re_match symbol_re l")
  case None
  then show ?thesis by (simp add: symbols_body_def symbol_row_def)
next
  case (Some gs)
  from symbol_match_record [OF Some] obtain r where
    "new_symbol gs = Inr r" "group gs 7 = Inr (name r)" by blast
  with Some show ?thesis by (simp add: symbols_body_def symbol_row_def)
qed

lemma strip_empty: "strip s = [] \<longleftrightarrow> list_all is_space s"
proof -
  have "strip s = [] \<longleftrightarrow> (\<forall>x\<in>set (dropWhile is_space s). is_space x)"
    by (simp add: strip_def dropWhile_eq_Nil_conv)
  also have "\<dots> \<longleftrightarrow> dropWhile is_space s = []"
    by (metis hd_dropWhile list.set_sel(1) empty_iff list.set(1))
  also have "\<dots> \<longleftrightarrow> list_all is_space s"
    by (simp add: dropWhile_eq_Nil_conv list_all_iff)
  finally show ?thesis .
qed

lemma not_space_bracket: "\<not> is_space CHR ''[''"
  by (simp add: is_space_def in_range_def code_def)

lemma section_match_bracket: "re_match section_re f = Some gs \<Longrightarrow> CHR ''['' \<in> set f"
  by (drule re_match_sound) (auto simp: section_re_def list_all2_Cons1)

lemma section_match_not_blank: "re_match section_re f = Some gs \<Longrightarrow> strip f \<noteq> []"
  using section_match_bracket [of f gs] not_space_bracket
  by (auto simp: strip_empty list_all_iff)

lemma blank_no_section_row: "strip f = [] \<Longrightarrow> section_row f = None"
  using section_match_not_blank [of f] by (auto simp: section_row_def split: option.splits)

section \<open>The loops of the two passes\<close>

lemma sections_loop_rows:
  "\<exists>b'. for_loop sections_body (b, secs) ls = Inr (b', fold store (section_rows b ls) secs)"
proof (induction ls arbitrary: b secs)
  case Nil
  then show ?case by simp
next
  case (Cons f fs)
  show ?case
  proof (cases b)
    case False
    then show ?thesis using Cons.IH [of "sublist ''Section Headers:'' f" secs]
      by (simp add: sections_body_out)
  next
    case True
    then show ?thesis
      using Cons.IH [of "strip f \<noteq> []" "case section_row f of None \<Rightarrow> secs | Some r \<Rightarrow> setitem secs (name r) r"]
      by (simp add: sections_body_in store_def split: option.splits)
  qed
qed

lemma symbols_loop_rows:
  "\<exists>b'. for_loop symbols_body (b, syms) ls = Inr (b', fold store (symbol_rows b ls) syms)"
proof (induction ls arbitrary: b syms)
  case Nil
  then show ?case by simp
next
  case (Cons l ls)
  show ?case
  proof (cases b)
    case False
    then show ?thesis using Cons.IH [of "prefix ''Symbol table '' l" syms]
      by (simp add: symbols_body_out)
  next
    case True
    then show ?thesis
      using Cons.IH [of True "case symbol_row l of None \<Rightarrow> syms | Some r \<Rightarrow> setitem syms (name r) r"]
      by (simp add: symbols_body_in store_def split: option.splits)
  qed
qed

lemma parse_sections_rows:
  "parse_readelf_sections ls = Inr (fold store (section_rows False ls) [])"
  using sections_loop_rows [of False "[]" ls] by (auto simp: parse_readelf_sections_def)






lemma sections_loop_skip:
  "\<forall>l\<in>set ls. \<not> sublist ''Section Headers:'' l \<Longrightarrow>
     for_loop sections_body (False, secs) ls = Inr (False, secs)"
  by (induction ls) (simp_all add: sections_body_out)

lemma sections_loop_total: "\<exists>st'. for_loop sections_body st ls = Inr st'"
  using sections_loop_rows [of "fst st" "snd st" ls] by auto

lemma symbols_loop_total: "\<exists>st'. for_loop symbols_body st ls = Inr st'"
  using symbols_loop_rows [of "fst st" "snd st" ls] by auto









section \<open>Results on the extraction passes\<close>





text \<open>
  Claim C6. In the section pass a line of whitespace met inside the table leaves the
  table and stores nothing. The lines that follow are ignored as long as none contains
  the marker \<open>Section Headers:\<close>; after the next line that contains it, the rows are
  read again exactly as inside the first table. The pass never raises, however many
  times the marker occurs.
\<close>

theorem blank_line_ends_section_table:
  assumes "strip b = []"
    and "\<forall>l\<in>set skipped. \<not> sublist ''Section Headers:'' l"
    and "sublist ''Section Headers:'' h"
  shows "sections_body (True, secs) b = Inr (False, secs)
       \<and> for_loop sections_body (True, secs) (b # skipped) = Inr (False, secs)
       \<and> for_loop sections_body (True, secs) (b # skipped @ h # rows)
           = for_loop sections_body (True, secs) rows
       \<and> (\<exists>st'. for_loop sections_body (True, secs) rows = Inr st')
       \<and> (\<exists>m. parse_readelf_sections ls = Inr m)"
proof -
  have step: "sections_body (True, secs) b = Inr (False, secs)"
    using assms(1) by (simp add: sections_body_in blank_no_section_row)
  have skip: "for_loop sections_body (False, secs) skipped = Inr (False, secs)"
    using assms(2) by (rule sections_loop_skip)
  have hdr: "sections_body (False, secs) h = Inr (True, secs)"
    using assms(3) by (simp add: sections_body_out)
  have "for_loop sections_body (True, secs) (b # skipped) = Inr (False, secs)"
    using step skip by simp
  moreover have "for_loop sections_body (True, secs) (b # skipped @ h # rows)
           = for_loop sections_body (True, secs) rows"
    using step skip hdr by (simp add: for_loop_append)
  moreover have "\<exists>st'. for_loop sections_body (True, secs) rows = Inr st'"
    by (rule sections_loop_total)
  moreover have "\<exists>m. parse_readelf_sections ls = Inr m"
    by (simp add: parse_sections_rows)
  ultimately show ?thesis using step by blast
qed

theorem blank_line_ends_section_table_witness:
  "strip ''   '' = []
   \<and> list_all (\<lambda>l. \<not> sublist ''Section Headers:'' l)
         [''  [ 9] .skipped PROGBITS 00000000 010000 0007d0'', ''Key to Flags:'']
   \<and> sublist ''Section Headers:'' ''Section Headers:''
   \<and> for_loop sections_body (True, [])
        [''   '', ''  [ 9] .skipped PROGBITS 00000000 010000 0007d0'', ''Key to Flags:'',
         ''Section Headers:'', ''  [ 2] .data PROGBITS 20000000 020000 000100 00 WA 0 0 4'']
      = Inr (True, [(''.data'', \<lparr>name = ''.data'', address = 536870912, size' = 256,
                       type = ''PROGBITS'', offset = 131072\<rparr>)])
   \<and> for_loop sections_body (True, [])
        [''   '', ''  [ 9] .skipped PROGBITS 00000000 010000 0007d0'', ''Key to Flags:'']
      = Inr (False, [])"
proof -
  have h1: "strip ''   '' = []" by code_simp
  have h2: "\<forall>l\<in>set [''  [ 9] .skipped PROGBITS 00000000 010000 0007d0'', ''Key to Flags:''].
         \<not> sublist ''Section Headers:'' l" by code_simp
  have h3: "sublist ''Section Headers:'' ''Section Headers:''" by simp
  have r: "for_loop sections_body (True, [])
             [''  [ 2] .data PROGBITS 20000000 020000 000100 00 WA 0 0 4'']
      = Inr (True, [(''.data'', \<lparr>name = ''.data'', address = 536870912, size' = 256,
                       type = ''PROGBITS'', offset = 131072\<rparr>)])" by code_simp
  from blank_line_ends_section_table [OF h1 h2 h3,
      of "[]" "[''  [ 2] .data PROGBITS 20000000 020000 000100 00 WA 0 0 4'']"]
  have a: "for_loop sections_body (True, [])
             (''   '' # [''  [ 9] .skipped PROGBITS 00000000 010000 0007d0'', ''Key to Flags:'']
                @ ''Section Headers:''
                # [''  [ 2] .data PROGBITS 20000000 020000 000100 00 WA 0 0 4''])
           = for_loop sections_body (True, [])
               [''  [ 2] .data PROGBITS 20000000 020000 000100 00 WA 0 0 4'']"
    and b: "for_loop sections_body (True, [])
             (''   '' # [''  [ 9] .skipped PROGBITS 00000000 010000 0007d0'', ''Key to Flags:''])
           = Inr (False, [])"
    by blast+
  from a have a': "for_loop sections_body (True, [])
        [''   '', ''  [ 9] .skipped PROGBITS 00000000 010000 0007d0'', ''Key to Flags:'',
         ''Section Headers:'', ''  [ 2] .data PROGBITS 20000000 020000 000100 00 WA 0 0 4'']
      = Inr (True, [(''.data'', \<lparr>name = ''.data'', address = 536870912, size' = 256,
                       type = ''PROGBITS'', offset = 131072\<rparr>)])"
    unfolding r by (simp only: append.simps)
  from h2 have h2': "list_all (\<lambda>l. \<not> sublist ''Section Headers:'' l)
         [''  [ 9] .skipped PROGBITS 00000000 010000 0007d0'', ''Key to Flags:'']"
    unfolding list_all_iff .
  from h1 h2' h3 a' b show ?thesis by blast
qed









section \<open>The shape of a section row\<close>


















end
